theory Spec2Isabelle
  imports Main
begin

section \<open>The subscription bridge of useSubscription.ts\<close>

text \<open>
  The module keeps three process-wide tables, keyed by the hash of the subscription key:
  \<^verbatim>\<open>firestoreUnsubscribes\<close> (the handle returned by \<^verbatim>\<open>subscribeFn\<close>),
  \<^verbatim>\<open>queryCacheUnsubscribes\<close> (the handle returned by \<^verbatim>\<open>queryCache.subscribe\<close>) and
  \<^verbatim>\<open>eventCount\<close>. The hook \<^verbatim>\<open>useSubscription\<close> creates a promise (with its
  \<^verbatim>\<open>resolvePromise\<close> and \<^verbatim>\<open>rejectPromise\<close>) and runs two effects: the one-shot fetch
  and the registration of a listener on the query cache. The listener and the callback
  handed to \<^verbatim>\<open>subscribeFn\<close> are closures over the hook's arguments.

  The embedding passes the state explicitly. Calls that leave the module (the subscribe
  function, the unsubscribe handles, the promise's resolve and reject, the cache write)
  are appended to a trace, so that "is invoked" is a statement about the trace.
\<close>

subsection \<open>Values\<close>

text \<open>
  The payload type \<^verbatim>\<open>TData | null\<close> is generic. The code tests payloads for truthiness
  (\<^verbatim>\<open>data || null\<close>) and for nullishness (\<^verbatim>\<open>cachedData ?? null\<close>), so the values carry
  JavaScript's falsy constants. Numbers are integers here (no NaN, no fractions);
  \<open>JObj\<close> stands for any object (a snapshot, a user), named by a tag.
\<close>

datatype jsval = JUndefined | JNull | JBool bool | JNum int | JStr string | JObj nat

fun truthy :: "jsval \<Rightarrow> bool" where
  "truthy JUndefined = False"
| "truthy JNull = False"
| "truthy (JBool b) = b"
| "truthy (JNum n) = (n \<noteq> 0)"
| "truthy (JStr s) = (s \<noteq> [])"
| "truthy (JObj _) = True"

text \<open>\<^verbatim>\<open>a || b\<close>\<close>

definition js_or :: "jsval \<Rightarrow> jsval \<Rightarrow> jsval" where
  "js_or a b = (if truthy a then a else b)"

text \<open>\<^verbatim>\<open>a ?? b\<close>\<close>

fun js_nullish :: "jsval \<Rightarrow> jsval \<Rightarrow> jsval" where
  "js_nullish JUndefined b = b"
| "js_nullish JNull b = b"
| "js_nullish a b = a"

subsection \<open>State\<close>

type_synonym queryKey = "string list"

text \<open>A promise created by \<^verbatim>\<open>new Promise\<close>: settled at most once.\<close>

datatype promise = Pending | Fulfilled jsval | Rejected jsval

text \<open>
  The calls that leave the module. \<open>Subscribed h u\<close>: \<^verbatim>\<open>subscribeFn\<close> was called for
  the subscription hash \<open>h\<close> and returned the handle \<open>u\<close>; \<open>Unsubscribed h u\<close>: that
  handle was called; \<open>CacheSubscribed h l\<close> and \<open>CacheUnsubscribed h l\<close>: the same for
  \<^verbatim>\<open>queryCache.subscribe\<close>; \<open>ResolveCalled p v\<close> and \<open>RejectCalled p e\<close>: the resolve
  and reject functions of promise \<open>p\<close>; \<open>CacheWrite k v\<close>:
  \<^verbatim>\<open>queryClient.setQueryData(k, v)\<close>; \<open>FetchCalled\<close>: \<^verbatim>\<open>options.fetchFn()\<close>.
\<close>

datatype effect =
    Subscribed string nat
  | Unsubscribed string nat
  | CacheSubscribed string nat
  | CacheUnsubscribed string nat
  | ResolveCalled nat jsval
  | RejectCalled nat jsval
  | CacheWrite queryKey jsval
  | FetchCalled nat

text \<open>
  One run of the one-shot effect: the promise its handlers settle and its
  \<^verbatim>\<open>cancelled\<close> flag; \<open>settled\<close> records that the promise of \<^verbatim>\<open>fetchFn()\<close> has
  settled (it does so once).
\<close>

record fetch =
  f_slot :: nat
  cancelled :: bool
  settled :: bool

text \<open>
  The three tables of the module (lines 33-35), and what the module reaches through
  \<^verbatim>\<open>queryClient\<close> and its closures: the cache store, the promises, the runs of the
  one-shot effect. Handles are functions: a handle is named by a number, every call of
  \<^verbatim>\<open>subscribeFn\<close> or \<^verbatim>\<open>queryCache.subscribe\<close> returns a new one, and a stored handle
  is always truthy and always a function, as the type \<^verbatim>\<open>Unsubscribe\<close> says.
  \<^verbatim>\<open>eventCount\<close> holds JavaScript numbers that only count up from 0; they are
  natural numbers here.
\<close>

record state =
  firestoreUnsubscribes :: "string \<rightharpoonup> nat"
  queryCacheUnsubscribes :: "string \<rightharpoonup> nat"
  eventCount :: "string \<rightharpoonup> nat"
  cacheStore :: "queryKey \<rightharpoonup> jsval"
  slots :: "nat \<rightharpoonup> promise"
  fetches :: "nat \<rightharpoonup> fetch"
  nextHandle :: nat
  trace :: "effect list"

text \<open>
  The arguments of one call of \<^verbatim>\<open>useSubscription\<close>, as its closures see them.
  \<open>subscribeFn\<close> is the external source: the payloads it pushes into the callback
  before it returns its handle (none, for a source that only delivers later).
  \<open>fetchFn\<close> is \<open>None\<close> when the option is not supplied. \<open>hashFn\<close> is
  \<^verbatim>\<open>options?.queryKeyHashFn || hashQueryKey\<close>. \<open>slot\<close> names the promise that
  \<^verbatim>\<open>useMemo\<close> created, which \<^verbatim>\<open>resolvePromise\<close> and \<^verbatim>\<open>rejectPromise\<close> settle.
\<close>

record hook =
  queryKey :: queryKey
  subscriptionKey :: queryKey
  subscribeFn :: "jsval list"
  onlyOnce :: bool
  enabled_option :: "bool option"
  fetchFn :: "nat option"
  hashFn :: "queryKey \<Rightarrow> string"
  slot :: nat

text \<open>\<^verbatim>\<open>const subscriptionHash = hashFn(subscriptionKey)\<close>\<close>

definition subscriptionHash :: "hook \<Rightarrow> string" where
  "subscriptionHash hk = hashFn hk (subscriptionKey hk)"

text \<open>\<^verbatim>\<open>const enabled = options?.enabled ?? true\<close>\<close>

definition enabled :: "hook \<Rightarrow> bool" where
  "enabled hk = (case enabled_option hk of None \<Rightarrow> True | Some b \<Rightarrow> b)"

subsection \<open>The promise and the cache store\<close>

text \<open>
  \<^verbatim>\<open>resolvePromise\<close> and \<^verbatim>\<open>rejectPromise\<close> are the resolve and reject of the promise
  of lines 87-90: the first call settles the promise, later calls do nothing.
\<close>

definition settle :: "nat \<Rightarrow> promise \<Rightarrow> state \<Rightarrow> state" where
  "settle p r st =
     (case slots st p of
        Some Pending \<Rightarrow> st\<lparr>slots := (slots st)(p \<mapsto> r)\<rparr>
      | _ \<Rightarrow> st)"

definition resolvePromise :: "nat \<Rightarrow> jsval \<Rightarrow> state \<Rightarrow> state" where
  "resolvePromise p v st = settle p (Fulfilled v) (st\<lparr>trace := trace st @ [ResolveCalled p v]\<rparr>)"

definition rejectPromise :: "nat \<Rightarrow> jsval \<Rightarrow> state \<Rightarrow> state" where
  "rejectPromise p e st = settle p (Rejected e) (st\<lparr>trace := trace st @ [RejectCalled p e]\<rparr>)"

text \<open>\<^verbatim>\<open>queryClient.getQueryData(queryKey)\<close>: \<^verbatim>\<open>undefined\<close> when nothing is cached.\<close>

definition getQueryData :: "state \<Rightarrow> queryKey \<Rightarrow> jsval" where
  "getQueryData st k = (case cacheStore st k of None \<Rightarrow> JUndefined | Some v \<Rightarrow> v)"

text \<open>\<^verbatim>\<open>queryClient.setQueryData(queryKey, data)\<close>\<close>

definition setQueryData :: "queryKey \<Rightarrow> jsval \<Rightarrow> state \<Rightarrow> state" where
  "setQueryData k v st =
     st\<lparr>cacheStore := (cacheStore st)(k \<mapsto> v), trace := trace st @ [CacheWrite k v]\<rparr>"

subsection \<open>Teardown (lines 48-63)\<close>

definition firestoreUnsubscribe :: "string \<Rightarrow> state \<Rightarrow> state" where
  "firestoreUnsubscribe h st =
     (let st1 = (case firestoreUnsubscribes st h of
                   Some u \<Rightarrow> st\<lparr>trace := trace st @ [Unsubscribed h u]\<rparr>
                 | None \<Rightarrow> st)
      in st1\<lparr>firestoreUnsubscribes := (firestoreUnsubscribes st1)(h := None),
             eventCount := (eventCount st1)(h := None)\<rparr>)"

definition queryCacheUnsubscribe :: "string \<Rightarrow> state \<Rightarrow> state" where
  "queryCacheUnsubscribe h st =
     (case queryCacheUnsubscribes st h of
        Some l \<Rightarrow> st\<lparr>trace := trace st @ [CacheUnsubscribed h l],
                     queryCacheUnsubscribes := (queryCacheUnsubscribes st)(h := None)\<rparr>
      | None \<Rightarrow> st)"

subsection \<open>The callback handed to subscribeFn (lines 166-174)\<close>

text \<open>
  \<^verbatim>\<open>eventCount[h] ??= 0; eventCount[h]++\<close>, then the first event resolves the promise
  with \<^verbatim>\<open>data || null\<close> and every other event is written to the cache store.
\<close>

definition callback :: "hook \<Rightarrow> jsval \<Rightarrow> state \<Rightarrow> state" where
  "callback hk data st =
     (let h = subscriptionHash hk;
          c0 = (case eventCount st h of None \<Rightarrow> 0 | Some n \<Rightarrow> n);
          c1 = c0 + 1;
          st1 = st\<lparr>eventCount := (eventCount st)(h \<mapsto> c1)\<rparr>
      in if c1 = 1 then resolvePromise (slot hk) (js_or data JNull) st1
         else setQueryData (queryKey hk) data st1)"

subsection \<open>The cache listener (lines 138-177)\<close>

text \<open>
  Modelled from the spec: the event of the query cache, whose type the source imports
  from react-query. It carries the hash of the query it is about, one of the tags
  \<^verbatim>\<open>queryAdded\<close>, \<^verbatim>\<open>queryRemoved\<close>, \<^verbatim>\<open>observerAdded\<close>, \<^verbatim>\<open>observerRemoved\<close> (any other
  tag is \<open>OtherEvent\<close>), and what \<^verbatim>\<open>query.getObserversCount()\<close> returns when the
  listener runs.
\<close>

datatype event_type = QueryAdded | QueryRemoved | ObserverAdded | ObserverRemoved | OtherEvent

record cache_event =
  queryHash :: string
  ev_type :: event_type
  observersCount :: nat

text \<open>
  The call of \<^verbatim>\<open>subscribeFn\<close> in line 166: the source may push payloads into the
  callback before it returns, and the handle is stored only after it has returned.
\<close>

definition openSubscription :: "hook \<Rightarrow> state \<Rightarrow> state" where
  "openSubscription hk st =
     (let h = subscriptionHash hk;
          u = nextHandle st;
          st1 = st\<lparr>nextHandle := u + 1, trace := trace st @ [Subscribed h u]\<rparr>;
          st2 = foldl (\<lambda>s d. callback hk d s) st1 (subscribeFn hk)
      in st2\<lparr>firestoreUnsubscribes := (firestoreUnsubscribes st2)(h \<mapsto> u)\<rparr>)"

text \<open>\<^verbatim>\<open>const hasData = !!eventCount[subscriptionHash]\<close>\<close>

definition hasData :: "state \<Rightarrow> string \<Rightarrow> bool" where
  "hasData st h = (case eventCount st h of None \<Rightarrow> False | Some n \<Rightarrow> n \<noteq> 0)"

text \<open>The listener receives \<open>None\<close> for an \<^verbatim>\<open>undefined\<close> event.\<close>

definition listener :: "hook \<Rightarrow> cache_event option \<Rightarrow> state \<Rightarrow> state" where
  "listener hk event st =
     (case event of
        None \<Rightarrow> st
      | Some ev \<Rightarrow>
          if queryHash ev \<noteq> hashFn hk (queryKey hk) then st
          else
            (let h = subscriptionHash hk;
                 isSubscribedToFirestore = (firestoreUnsubscribes st h \<noteq> None)
             in case ev_type ev of
                  QueryRemoved \<Rightarrow> firestoreUnsubscribe h (queryCacheUnsubscribe h st)
                | ObserverRemoved \<Rightarrow>
                    if observersCount ev \<noteq> 0 then st else firestoreUnsubscribe h st
                | ObserverAdded \<Rightarrow>
                    if isSubscribedToFirestore then
                      (let cachedData = getQueryData st (queryKey hk)
                       in if hasData st h
                          then resolvePromise (slot hk) (js_nullish cachedData JNull) st
                          else st)
                    else openSubscription hk st
                | _ \<Rightarrow> st))"

subsection \<open>The hook's promise and effects\<close>

text \<open>
  Lines 84-100: \<^verbatim>\<open>useMemo\<close> creates the promise, pending, under a name \<open>p\<close> that is
  not yet in use. Its \<^verbatim>\<open>cancel\<close> (\<^verbatim>\<open>queryClient.invalidateQueries\<close>) is called by the
  query layer only and is left out.
\<close>

definition newPromise :: "nat \<Rightarrow> state \<Rightarrow> state" where
  "newPromise p st = st\<lparr>slots := (slots st)(p \<mapsto> Pending)\<rparr>"

text \<open>
  What a run of an effect amounts to: it returns nothing, it throws, or it returns a
  cleanup function (here the name of the run whose \<^verbatim>\<open>cancelled\<close> flag the cleanup sets).
\<close>

datatype effect_result = Returned | Threw string | ReturnedCleanup nat

text \<open>
  Lines 102-127, up to the call of \<^verbatim>\<open>fetchFn\<close>; the two handlers on its promise are
  \<open>fetchSettled\<close> and the cleanup is \<open>cleanup\<close>. The run is named \<open>fid\<close>, a name that
  is not yet in use.
\<close>

definition onlyOnceEffect :: "hook \<Rightarrow> nat \<Rightarrow> state \<Rightarrow> effect_result \<times> state" where
  "onlyOnceEffect hk fid st =
     (if \<not> onlyOnce hk \<or> \<not> enabled hk then (Returned, st)
      else case fetchFn hk of
             None \<Rightarrow> (Threw ''You must specify fetchFn if using onlyOnce mode.'', st)
           | Some f \<Rightarrow>
               (ReturnedCleanup fid,
                st\<lparr>fetches := (fetches st)(fid \<mapsto> \<lparr>f_slot = slot hk, cancelled = False, settled = False\<rparr>),
                   trace := trace st @ [FetchCalled f]\<rparr>))"

text \<open>\<^verbatim>\<open>return () => { cancelled = true; }\<close>\<close>

definition cleanup :: "nat \<Rightarrow> state \<Rightarrow> state" where
  "cleanup fid st =
     (case fetches st fid of
        None \<Rightarrow> st
      | Some f \<Rightarrow> st\<lparr>fetches := (fetches st)(fid \<mapsto> f\<lparr>cancelled := True\<rparr>)\<rparr>)"

text \<open>
  The promise of \<^verbatim>\<open>fetchFn()\<close> settles: \<open>Inr data\<close> runs the \<^verbatim>\<open>then\<close> handler,
  \<open>Inl err\<close> the \<^verbatim>\<open>catch\<close> handler.
\<close>

definition fetchSettled :: "nat \<Rightarrow> jsval + jsval \<Rightarrow> state \<Rightarrow> state" where
  "fetchSettled fid outcome st =
     (case fetches st fid of
        None \<Rightarrow> st
      | Some f \<Rightarrow>
          if settled f then st
          else
            (let st1 = st\<lparr>fetches := (fetches st)(fid \<mapsto> f\<lparr>settled := True\<rparr>)\<rparr>
             in case outcome of
                  Inr data \<Rightarrow> if cancelled f then st1 else resolvePromise (f_slot f) data st1
                | Inl err \<Rightarrow> if cancelled f then st1 else rejectPromise (f_slot f) err st1))"

text \<open>Lines 129-178: the registration of the listener.\<close>

definition subscribeEffect :: "hook \<Rightarrow> state \<Rightarrow> state" where
  "subscribeEffect hk st =
     (if onlyOnce hk \<or> \<not> enabled hk then st
      else
        (let h = subscriptionHash hk;
             subscribedToQueryCache = (queryCacheUnsubscribes st h \<noteq> None)
         in if subscribedToQueryCache then st
            else
              (let l = nextHandle st
               in st\<lparr>queryCacheUnsubscribes := (queryCacheUnsubscribes st)(h \<mapsto> l),
                     nextHandle := l + 1,
                     trace := trace st @ [CacheSubscribed h l]\<rparr>)))"

subsection \<open>Signals\<close>

text \<open>
  What can happen to the closures of one hook after its effects have run: the query
  cache notifies the listener, the source pushes a payload into the callback, the
  source fails on its side, the cleanup of a one-shot run is called, the promise of a
  one-shot run settles. \<^verbatim>\<open>subscribeFn\<close> hands the source one function, the callback
  of a payload (line 76); a failure of the source therefore calls nothing of this
  module.
\<close>

datatype signal =
    Cache "cache_event option"
  | Push jsval
  | SourceFailure jsval
  | Cleanup nat
  | Settled nat "jsval + jsval"

fun step :: "hook \<Rightarrow> signal \<Rightarrow> state \<Rightarrow> state" where
  "step hk (Cache ev) st = listener hk ev st"
| "step hk (Push d) st = callback hk d st"
| "step hk (SourceFailure e) st = st"
| "step hk (Cleanup fid) st = cleanup fid st"
| "step hk (Settled fid outcome) st = fetchSettled fid outcome st"

fun run :: "hook \<Rightarrow> signal list \<Rightarrow> state \<Rightarrow> state" where
  "run hk [] st = st"
| "run hk (x # xs) st = run hk xs (step hk x st)"

text \<open>The signals the claims speak of, for the closures of \<open>hk\<close>.\<close>

definition about :: "hook \<Rightarrow> event_type \<Rightarrow> cache_event \<Rightarrow> bool" where
  "about hk t ev = (queryHash ev = hashFn hk (queryKey hk) \<and> ev_type ev = t)"

fun is_attach :: "hook \<Rightarrow> signal \<Rightarrow> bool" where
  "is_attach hk (Cache (Some ev)) = about hk ObserverAdded ev"
| "is_attach hk _ = False"

text \<open>A removal of the query, or a removal of an observer that leaves none.\<close>

fun tears_down :: "hook \<Rightarrow> signal \<Rightarrow> bool" where
  "tears_down hk (Cache (Some ev)) =
     (about hk QueryRemoved ev \<or> (about hk ObserverRemoved ev \<and> observersCount ev = 0))"
| "tears_down hk _ = False"

fun is_query_removed :: "hook \<Rightarrow> signal \<Rightarrow> bool" where
  "is_query_removed hk (Cache (Some ev)) = about hk QueryRemoved ev"
| "is_query_removed hk _ = False"


subsection \<open>Reading the registry and the trace\<close>

text \<open>
  The counter as the callback reads it in line 167 (\<^verbatim>\<open>eventCount[h] ??= 0\<close>): a missing
  counter counts as 0. The spec names this reading \<^verbatim>\<open>eventCountOf(identity)\<close>.
\<close>

definition eventCountOf :: "state \<Rightarrow> string \<Rightarrow> nat" where
  "eventCountOf st h = (case eventCount st h of None \<Rightarrow> 0 | Some n \<Rightarrow> n)"

text \<open>
  \<^verbatim>\<open>!!firestoreUnsubscribes[subscriptionHash]\<close>, as line 144 computes it; the spec's
  \<^verbatim>\<open>hasSubscription(identity)\<close>.
\<close>

definition hasSubscription :: "state \<Rightarrow> string \<Rightarrow> bool" where
  "hasSubscription st h = (firestoreUnsubscribes st h \<noteq> None)"

fun is_open :: "string \<Rightarrow> effect \<Rightarrow> bool" where
  "is_open h (Subscribed h' _) = (h' = h)"
| "is_open h _ = False"

fun is_close :: "string \<Rightarrow> effect \<Rightarrow> bool" where
  "is_close h (Unsubscribed h' _) = (h' = h)"
| "is_close h _ = False"

fun is_reject :: "effect \<Rightarrow> bool" where
  "is_reject (RejectCalled _ _) = True"
| "is_reject _ = False"

text \<open>How often \<^verbatim>\<open>subscribeFn\<close> was called for \<open>h\<close>, and how often its handles.\<close>

definition opens :: "string \<Rightarrow> state \<Rightarrow> nat" where
  "opens h st = length (filter (is_open h) (trace st))"

definition closes :: "string \<Rightarrow> state \<Rightarrow> nat" where
  "closes h st = length (filter (is_close h) (trace st))"

text \<open>
  The calls of \<^verbatim>\<open>subscribeFn\<close> for \<open>h\<close> that no call of a handle has answered yet: one
  while a handle is stored, none otherwise.
\<close>

definition balanced :: "state \<Rightarrow> string \<Rightarrow> bool" where
  "balanced st h = (opens h st = closes h st + (if hasSubscription st h then 1 else 0))"

text \<open>
  The source's contract (spec, section 6): payloads arrive between subscribe and
  unsubscribe. Under it a counter exists only for an identity that has a handle.
\<close>

definition consistent :: "state \<Rightarrow> bool" where
  "consistent st = (\<forall>h. eventCount st h \<noteq> None \<longrightarrow> firestoreUnsubscribes st h \<noteq> None)"

fun in_contract :: "hook \<Rightarrow> signal \<Rightarrow> state \<Rightarrow> bool" where
  "in_contract hk (Push d) st = hasSubscription st (subscriptionHash hk)"
| "in_contract hk _ st = True"

text \<open>
  A one-shot run whose handlers can no longer reach the promise: its cleanup has been
  called (or there is no such run).
\<close>

definition stale :: "state \<Rightarrow> nat \<Rightarrow> bool" where
  "stale st fid = (case fetches st fid of None \<Rightarrow> True | Some f \<Rightarrow> cancelled f)"

text \<open>
  From \<open>st\<close> to \<open>st'\<close> no call of a promise's reject was added and no promise became
  rejected.
\<close>

definition no_new_reject :: "state \<Rightarrow> state \<Rightarrow> bool" where
  "no_new_reject st st' =
     (filter is_reject (trace st') = filter is_reject (trace st)
      \<and> (\<forall>p e. slots st' p = Some (Rejected e) \<longrightarrow> slots st p = Some (Rejected e)))"

text \<open>
  Once the identity of \<open>hk\<close> has counted an event, the promise of \<open>hk\<close> is no longer
  pending: the event that made the counter 1 called its resolve.
\<close>

definition first_settles :: "hook \<Rightarrow> state \<Rightarrow> bool" where
  "first_settles hk st =
     (eventCountOf st (subscriptionHash hk) \<noteq> 0 \<longrightarrow> slots st (slot hk) \<noteq> Some Pending)"

subsection \<open>Example inputs\<close>

definition ex_hook :: hook where
  "ex_hook = \<lparr>queryKey = [''todos''], subscriptionKey = [''todos''], subscribeFn = [],
              onlyOnce = False, enabled_option = None, fetchFn = None,
              hashFn = concat, slot = 0\<rparr>"

definition ex_once :: hook where
  "ex_once = ex_hook\<lparr>onlyOnce := True\<rparr>"

text \<open>The module as loaded: empty tables, nothing cached, no promise.\<close>

definition module_loaded :: state where
  "module_loaded = \<lparr>firestoreUnsubscribes = Map.empty, queryCacheUnsubscribes = Map.empty,
                    eventCount = Map.empty, cacheStore = Map.empty,
                    slots = Map.empty, fetches = Map.empty,
                    nextHandle = 0, trace = []\<rparr>"

text \<open>The hook has rendered: \<^verbatim>\<open>useMemo\<close> has created its promise.\<close>

definition ex_init :: state where
  "ex_init = newPromise 0 module_loaded"

definition ex_cache_event :: "event_type \<Rightarrow> nat \<Rightarrow> cache_event" where
  "ex_cache_event t n = \<lparr>queryHash = ''todos'', ev_type = t, observersCount = n\<rparr>"

definition ex_event :: "event_type \<Rightarrow> nat \<Rightarrow> signal" where
  "ex_event t n = Cache (Some (ex_cache_event t n))"

text \<open>
  The hook has registered its listener; then a first consumer has attached; then the
  source has pushed two payloads.
\<close>

definition ex_mounted :: state where
  "ex_mounted = subscribeEffect ex_hook ex_init"

definition ex_subscribed :: state where
  "ex_subscribed = step ex_hook (ex_event ObserverAdded 1) ex_mounted"

definition ex_has_data :: state where
  "ex_has_data = run ex_hook [Push (JStr ''a''), Push (JStr ''b'')] ex_subscribed"

text \<open>
  A second component calls the hook with the same keys while the first is subscribed
  and has data: \<^verbatim>\<open>useMemo\<close> creates its own promise, named 1, and its registration
  effect runs.
\<close>

definition ex_second :: hook where
  "ex_second = ex_hook\<lparr>slot := 1\<rparr>"

definition ex_second_rendered :: state where
  "ex_second_rendered = subscribeEffect ex_second (newPromise 1 ex_has_data)"

text \<open>
  The first component's last observer has left and a new one has attached: the
  subscription was closed and opened again.
\<close>

definition ex_reopened :: state where
  "ex_reopened = run ex_hook [ex_event ObserverRemoved 0, ex_event ObserverAdded 1] ex_has_data"

text \<open>A hook in one-shot mode has called its \<^verbatim>\<open>fetchFn\<close>, which has not settled yet.\<close>

definition ex_fetching :: state where
  "ex_fetching = snd (onlyOnceEffect (ex_once\<lparr>fetchFn := Some 7\<rparr>) 0 ex_init)"

section \<open>What each operation changes\<close>

text \<open>
  Field by field: the part of the state an operation writes, and the trace it appends.
\<close>

lemma settle_fields [simp]:
  "firestoreUnsubscribes (settle p r st) = firestoreUnsubscribes st"
  "queryCacheUnsubscribes (settle p r st) = queryCacheUnsubscribes st"
  "eventCount (settle p r st) = eventCount st"
  "cacheStore (settle p r st) = cacheStore st"
  "fetches (settle p r st) = fetches st"
  "nextHandle (settle p r st) = nextHandle st"
  "trace (settle p r st) = trace st"
  by (simp_all add: settle_def split: option.splits promise.splits)

lemma settle_slots:
  "slots (settle p r st) = (if slots st p = Some Pending then (slots st)(p \<mapsto> r) else slots st)"
  by (simp add: settle_def split: option.splits promise.splits)

lemma resolvePromise_fields [simp]:
  "firestoreUnsubscribes (resolvePromise p v st) = firestoreUnsubscribes st"
  "queryCacheUnsubscribes (resolvePromise p v st) = queryCacheUnsubscribes st"
  "eventCount (resolvePromise p v st) = eventCount st"
  "cacheStore (resolvePromise p v st) = cacheStore st"
  "fetches (resolvePromise p v st) = fetches st"
  "nextHandle (resolvePromise p v st) = nextHandle st"
  "trace (resolvePromise p v st) = trace st @ [ResolveCalled p v]"
  by (simp_all add: resolvePromise_def)

lemma resolvePromise_slots:
  "slots (resolvePromise p v st) =
     (if slots st p = Some Pending then (slots st)(p \<mapsto> Fulfilled v) else slots st)"
  by (simp add: resolvePromise_def settle_slots)

lemma rejectPromise_fields [simp]:
  "firestoreUnsubscribes (rejectPromise p v st) = firestoreUnsubscribes st"
  "queryCacheUnsubscribes (rejectPromise p v st) = queryCacheUnsubscribes st"
  "eventCount (rejectPromise p v st) = eventCount st"
  "cacheStore (rejectPromise p v st) = cacheStore st"
  "fetches (rejectPromise p v st) = fetches st"
  "nextHandle (rejectPromise p v st) = nextHandle st"
  "trace (rejectPromise p v st) = trace st @ [RejectCalled p v]"
  by (simp_all add: rejectPromise_def)

lemma setQueryData_fields [simp]:
  "firestoreUnsubscribes (setQueryData k v st) = firestoreUnsubscribes st"
  "queryCacheUnsubscribes (setQueryData k v st) = queryCacheUnsubscribes st"
  "eventCount (setQueryData k v st) = eventCount st"
  "cacheStore (setQueryData k v st) = (cacheStore st)(k \<mapsto> v)"
  "slots (setQueryData k v st) = slots st"
  "fetches (setQueryData k v st) = fetches st"
  "nextHandle (setQueryData k v st) = nextHandle st"
  "trace (setQueryData k v st) = trace st @ [CacheWrite k v]"
  by (simp_all add: setQueryData_def)

lemma firestoreUnsubscribe_fields [simp]:
  "firestoreUnsubscribes (firestoreUnsubscribe h st) = (firestoreUnsubscribes st)(h := None)"
  "queryCacheUnsubscribes (firestoreUnsubscribe h st) = queryCacheUnsubscribes st"
  "eventCount (firestoreUnsubscribe h st) = (eventCount st)(h := None)"
  "cacheStore (firestoreUnsubscribe h st) = cacheStore st"
  "slots (firestoreUnsubscribe h st) = slots st"
  "fetches (firestoreUnsubscribe h st) = fetches st"
  "nextHandle (firestoreUnsubscribe h st) = nextHandle st"
  "trace (firestoreUnsubscribe h st) =
     trace st @ (case firestoreUnsubscribes st h of None \<Rightarrow> [] | Some u \<Rightarrow> [Unsubscribed h u])"
  by (simp_all add: firestoreUnsubscribe_def Let_def split: option.splits)

lemma queryCacheUnsubscribe_fields [simp]:
  "firestoreUnsubscribes (queryCacheUnsubscribe h st) = firestoreUnsubscribes st"
  "queryCacheUnsubscribes (queryCacheUnsubscribe h st) = (queryCacheUnsubscribes st)(h := None)"
  "eventCount (queryCacheUnsubscribe h st) = eventCount st"
  "cacheStore (queryCacheUnsubscribe h st) = cacheStore st"
  "slots (queryCacheUnsubscribe h st) = slots st"
  "fetches (queryCacheUnsubscribe h st) = fetches st"
  "nextHandle (queryCacheUnsubscribe h st) = nextHandle st"
  "trace (queryCacheUnsubscribe h st) =
     trace st @ (case queryCacheUnsubscribes st h of None \<Rightarrow> [] | Some l \<Rightarrow> [CacheUnsubscribed h l])"
  by (auto simp: queryCacheUnsubscribe_def split: option.splits)

lemma firestoreUnsubscribe_absent:
  "firestoreUnsubscribes st h = None \<Longrightarrow> eventCount st h = None \<Longrightarrow> firestoreUnsubscribe h st = st"
  by (simp add: firestoreUnsubscribe_def fun_upd_idem)

lemma queryCacheUnsubscribe_absent:
  "queryCacheUnsubscribes st h = None \<Longrightarrow> queryCacheUnsubscribe h st = st"
  by (simp add: queryCacheUnsubscribe_def)

lemma callback_fields [simp]:
  "firestoreUnsubscribes (callback hk d st) = firestoreUnsubscribes st"
  "queryCacheUnsubscribes (callback hk d st) = queryCacheUnsubscribes st"
  "eventCount (callback hk d st) =
     (eventCount st)(subscriptionHash hk \<mapsto> Suc (eventCountOf st (subscriptionHash hk)))"
  "fetches (callback hk d st) = fetches st"
  "nextHandle (callback hk d st) = nextHandle st"
  "trace (callback hk d st) = trace st @
     [if eventCountOf st (subscriptionHash hk) = 0 then ResolveCalled (slot hk) (js_or d JNull)
      else CacheWrite (queryKey hk) d]"
  by (simp_all add: callback_def Let_def eventCountOf_def)

lemma callback_slots:
  "slots (callback hk d st) =
     (if eventCountOf st (subscriptionHash hk) = 0 \<and> slots st (slot hk) = Some Pending
      then (slots st)(slot hk \<mapsto> Fulfilled (js_or d JNull)) else slots st)"
  by (simp add: callback_def Let_def eventCountOf_def resolvePromise_slots)

lemma callback_cacheStore:
  "cacheStore (callback hk d st) =
     (if eventCountOf st (subscriptionHash hk) = 0 then cacheStore st
      else (cacheStore st)(queryKey hk \<mapsto> d))"
  by (simp add: callback_def Let_def eventCountOf_def)

lemma eventCountOf_callback:
  "eventCountOf (callback hk d st) (subscriptionHash hk) = Suc (eventCountOf st (subscriptionHash hk))"
  by (simp add: eventCountOf_def)

lemma foldl_callback_fields [simp]:
  "firestoreUnsubscribes (foldl (\<lambda>s d. callback hk d s) st ds) = firestoreUnsubscribes st"
  "queryCacheUnsubscribes (foldl (\<lambda>s d. callback hk d s) st ds) = queryCacheUnsubscribes st"
  "fetches (foldl (\<lambda>s d. callback hk d s) st ds) = fetches st"
  "nextHandle (foldl (\<lambda>s d. callback hk d s) st ds) = nextHandle st"
  by (induction ds arbitrary: st; simp)+

lemma openSubscription_fields [simp]:
  "firestoreUnsubscribes (openSubscription hk st) =
     (firestoreUnsubscribes st)(subscriptionHash hk \<mapsto> nextHandle st)"
  "queryCacheUnsubscribes (openSubscription hk st) = queryCacheUnsubscribes st"
  "fetches (openSubscription hk st) = fetches st"
  "nextHandle (openSubscription hk st) = Suc (nextHandle st)"
  by (simp_all add: openSubscription_def Let_def)

lemma openSubscription_silent:
  assumes "subscribeFn hk = []"
  shows "openSubscription hk st =
     st\<lparr>nextHandle := Suc (nextHandle st),
        trace := trace st @ [Subscribed (subscriptionHash hk) (nextHandle st)],
        firestoreUnsubscribes := (firestoreUnsubscribes st)(subscriptionHash hk \<mapsto> nextHandle st)\<rparr>"
  using assms by (simp add: openSubscription_def Let_def)

text \<open>The listener, case by case.\<close>

lemma listener_undefined: "listener hk None st = st"
  by (simp add: listener_def)

lemma listener_other_query:
  "queryHash ev \<noteq> hashFn hk (queryKey hk) \<Longrightarrow> listener hk (Some ev) st = st"
  by (simp add: listener_def)

lemma listener_queryRemoved:
  "about hk QueryRemoved ev \<Longrightarrow>
   listener hk (Some ev) st =
     firestoreUnsubscribe (subscriptionHash hk) (queryCacheUnsubscribe (subscriptionHash hk) st)"
  by (simp add: listener_def about_def Let_def)

lemma listener_observerRemoved:
  "about hk ObserverRemoved ev \<Longrightarrow>
   listener hk (Some ev) st =
     (if observersCount ev \<noteq> 0 then st else firestoreUnsubscribe (subscriptionHash hk) st)"
  by (simp add: listener_def about_def Let_def)

lemma listener_observerAdded:
  "about hk ObserverAdded ev \<Longrightarrow>
   listener hk (Some ev) st =
     (if hasSubscription st (subscriptionHash hk)
      then (if hasData st (subscriptionHash hk)
            then resolvePromise (slot hk) (js_nullish (getQueryData st (queryKey hk)) JNull) st
            else st)
      else openSubscription hk st)"
  by (simp add: listener_def about_def hasSubscription_def Let_def)

lemma listener_no_case:
  "ev_type ev = QueryAdded \<or> ev_type ev = OtherEvent \<Longrightarrow> listener hk (Some ev) st = st"
  by (auto simp: listener_def Let_def)

section \<open>The example states\<close>

lemma ex_hook_fields [simp]:
  "subscriptionHash ex_hook = ''todos''"
  "hashFn ex_hook = concat"
  "queryKey ex_hook = [''todos'']"
  "slot ex_hook = 0"
  "subscribeFn ex_hook = []"
  "\<not> onlyOnce ex_hook"
  "enabled ex_hook"
  by (simp_all add: ex_hook_def subscriptionHash_def enabled_def)

lemma ex_about [simp]: "about ex_hook t (ex_cache_event t' n) = (t' = t)"
  by (simp add: about_def ex_cache_event_def)

lemma ex_observersCount [simp]: "observersCount (ex_cache_event t n) = n"
  by (simp add: ex_cache_event_def)

lemma ex_mounted_fields [simp]:
  "firestoreUnsubscribes ex_mounted = Map.empty"
  "queryCacheUnsubscribes ex_mounted = [''todos'' \<mapsto> 0]"
  "eventCount ex_mounted = Map.empty"
  "cacheStore ex_mounted = Map.empty"
  "slots ex_mounted = [0 \<mapsto> Pending]"
  "fetches ex_mounted = Map.empty"
  "nextHandle ex_mounted = 1"
  "trace ex_mounted = [CacheSubscribed ''todos'' 0]"
  by (simp_all add: ex_mounted_def subscribeEffect_def ex_init_def newPromise_def module_loaded_def
        Let_def)

lemma ex_subscribed_fields [simp]:
  "firestoreUnsubscribes ex_subscribed = [''todos'' \<mapsto> 1]"
  "queryCacheUnsubscribes ex_subscribed = [''todos'' \<mapsto> 0]"
  "eventCount ex_subscribed = Map.empty"
  "cacheStore ex_subscribed = Map.empty"
  "slots ex_subscribed = [0 \<mapsto> Pending]"
  "fetches ex_subscribed = Map.empty"
  "nextHandle ex_subscribed = 2"
  "trace ex_subscribed = [CacheSubscribed ''todos'' 0, Subscribed ''todos'' 1]"
  by (simp_all add: ex_subscribed_def ex_event_def listener_observerAdded hasSubscription_def
        openSubscription_silent)

lemma ex_has_data_fields [simp]:
  "firestoreUnsubscribes ex_has_data = [''todos'' \<mapsto> 1]"
  "queryCacheUnsubscribes ex_has_data = [''todos'' \<mapsto> 0]"
  "eventCount ex_has_data = [''todos'' \<mapsto> 2]"
  "cacheStore ex_has_data = [[''todos''] \<mapsto> JStr ''b'']"
  "slots ex_has_data = [0 \<mapsto> Fulfilled (JStr ''a'')]"
  "fetches ex_has_data = Map.empty"
  "nextHandle ex_has_data = 2"
  "trace ex_has_data = [CacheSubscribed ''todos'' 0, Subscribed ''todos'' 1,
                       ResolveCalled 0 (JStr ''a''), CacheWrite [''todos''] (JStr ''b'')]"
  by (simp_all add: ex_has_data_def callback_slots callback_cacheStore eventCountOf_def js_or_def
        numeral_2_eq_2)

section \<open>Counting opens and closes\<close>

lemma opens_closes_simple [simp]:
  "opens h (resolvePromise p v st) = opens h st"
  "closes h (resolvePromise p v st) = closes h st"
  "opens h (rejectPromise p v st) = opens h st"
  "closes h (rejectPromise p v st) = closes h st"
  "opens h (setQueryData k v st) = opens h st"
  "closes h (setQueryData k v st) = closes h st"
  "opens h (callback hk d st) = opens h st"
  "closes h (callback hk d st) = closes h st"
  "opens h (queryCacheUnsubscribe h' st) = opens h st"
  "closes h (queryCacheUnsubscribe h' st) = closes h st"
  "opens h (firestoreUnsubscribe h' st) = opens h st"
  by (simp_all add: opens_def closes_def split: option.splits)

lemma closes_firestoreUnsubscribe [simp]:
  "closes h (firestoreUnsubscribe h' st) =
     closes h st + (if h' = h \<and> hasSubscription st h then 1 else 0)"
  by (auto simp: closes_def hasSubscription_def split: option.splits)

lemma opens_closes_foldl_callback [simp]:
  "opens h (foldl (\<lambda>s d. callback hk d s) st ds) = opens h st"
  "closes h (foldl (\<lambda>s d. callback hk d s) st ds) = closes h st"
  by (induction ds arbitrary: st; simp)+

lemma opens_closes_openSubscription [simp]:
  "opens h (openSubscription hk st) = opens h st + (if subscriptionHash hk = h then 1 else 0)"
  "closes h (openSubscription hk st) = closes h st"
proof -
  let ?st1 = "st\<lparr>nextHandle := nextHandle st + 1,
                  trace := trace st @ [Subscribed (subscriptionHash hk) (nextHandle st)]\<rparr>"
  let ?st2 = "foldl (\<lambda>s d. callback hk d s) ?st1 (subscribeFn hk)"
  have o: "opens h (openSubscription hk st) = opens h ?st2"
    and c: "closes h (openSubscription hk st) = closes h ?st2"
    by (simp_all add: openSubscription_def Let_def opens_def closes_def)
  have o1: "opens h ?st1 = opens h st + (if subscriptionHash hk = h then 1 else 0)"
    and c1: "closes h ?st1 = closes h st"
    by (simp_all add: opens_def closes_def)
  show "opens h (openSubscription hk st) = opens h st + (if subscriptionHash hk = h then 1 else 0)"
    unfolding o opens_closes_foldl_callback o1 ..
  show "closes h (openSubscription hk st) = closes h st"
    unfolding c opens_closes_foldl_callback c1 ..
qed

lemma opens_closes_oneshot [simp]:
  "opens h (cleanup fid st) = opens h st"
  "closes h (cleanup fid st) = closes h st"
  "opens h (fetchSettled fid r st) = opens h st"
  "closes h (fetchSettled fid r st) = closes h st"
proof -
  show "opens h (cleanup fid st) = opens h st" "closes h (cleanup fid st) = closes h st"
    by (simp_all add: cleanup_def opens_def closes_def split: option.splits)
  have "\<And>s f. opens h (s\<lparr>fetches := f\<rparr>) = opens h s" "\<And>s f. closes h (s\<lparr>fetches := f\<rparr>) = closes h s"
    by (simp_all add: opens_def closes_def)
  then show "opens h (fetchSettled fid r st) = opens h st" "closes h (fetchSettled fid r st) = closes h st"
    by (simp_all add: fetchSettled_def Let_def split: option.splits sum.splits)
qed

lemma hasSubscription_oneshot [simp]:
  "hasSubscription (cleanup fid st) h = hasSubscription st h"
  "hasSubscription (fetchSettled fid r st) h = hasSubscription st h"
  "hasSubscription (callback hk d st) h = hasSubscription st h"
  by (simp_all add: hasSubscription_def cleanup_def fetchSettled_def Let_def
        split: option.splits sum.splits)

text \<open>One signal that is no teardown.\<close>

lemma listener_benign:
  assumes "\<not> tears_down hk (Cache evo)"
  shows "opens (subscriptionHash hk) (listener hk evo st) =
           opens (subscriptionHash hk) st +
             (if \<not> hasSubscription st (subscriptionHash hk) \<and> is_attach hk (Cache evo) then 1 else 0)
       \<and> closes (subscriptionHash hk) (listener hk evo st) = closes (subscriptionHash hk) st
       \<and> hasSubscription (listener hk evo st) (subscriptionHash hk) =
           (hasSubscription st (subscriptionHash hk) \<or> is_attach hk (Cache evo))"
proof (cases evo)
  case None
  then show ?thesis by (simp add: listener_undefined)
next
  case (Some ev)
  show ?thesis
  proof (cases "queryHash ev = hashFn hk (queryKey hk)")
    case False
    then show ?thesis using Some by (simp add: listener_other_query about_def)
  next
    case True
    show ?thesis
    proof (cases "ev_type ev")
      case QueryAdded
      then show ?thesis using Some True by (simp add: listener_no_case about_def)
    next
      case QueryRemoved
      then show ?thesis using Some True assms by (simp add: about_def)
    next
      case ObserverAdded
      then have a: "about hk ObserverAdded ev" using True by (simp add: about_def)
      show ?thesis using Some a
        by (simp add: listener_observerAdded) (simp add: hasSubscription_def)
    next
      case ObserverRemoved
      then have a: "about hk ObserverRemoved ev" using True by (simp add: about_def)
      have "observersCount ev \<noteq> 0" using assms Some a by simp
      then show ?thesis using Some a ObserverRemoved
        by (simp add: listener_observerRemoved about_def)
    next
      case OtherEvent
      then show ?thesis using Some True by (simp add: listener_no_case about_def)
    qed
  qed
qed

lemma step_benign:
  assumes "\<not> tears_down hk sig"
  shows "opens (subscriptionHash hk) (step hk sig st) =
           opens (subscriptionHash hk) st +
             (if \<not> hasSubscription st (subscriptionHash hk) \<and> is_attach hk sig then 1 else 0)
       \<and> closes (subscriptionHash hk) (step hk sig st) = closes (subscriptionHash hk) st
       \<and> hasSubscription (step hk sig st) (subscriptionHash hk) =
           (hasSubscription st (subscriptionHash hk) \<or> is_attach hk sig)"
proof (cases sig)
  case (Cache evo)
  then show ?thesis using assms listener_benign [of hk evo st] by simp
qed simp_all

lemma run_benign:
  assumes "\<forall>sig \<in> set sigs. \<not> tears_down hk sig"
  shows "opens (subscriptionHash hk) (run hk sigs st) =
           opens (subscriptionHash hk) st +
             (if \<not> hasSubscription st (subscriptionHash hk) \<and> (\<exists>sig \<in> set sigs. is_attach hk sig)
              then 1 else 0)
       \<and> closes (subscriptionHash hk) (run hk sigs st) = closes (subscriptionHash hk) st
       \<and> hasSubscription (run hk sigs st) (subscriptionHash hk) =
           (hasSubscription st (subscriptionHash hk) \<or> (\<exists>sig \<in> set sigs. is_attach hk sig))"
  using assms
proof (induction sigs arbitrary: st)
  case Nil
  then show ?case by simp
next
  case (Cons x xs)
  have x: "\<not> tears_down hk x" and xs: "\<forall>sig \<in> set xs. \<not> tears_down hk sig"
    using Cons.prems by simp_all
  note s = step_benign [OF x, of st]
  note r = Cons.IH [OF xs, of "step hk x st"]
  show ?case
    using s r by (auto split: if_splits)
qed

section \<open>Attach\<close>

text \<open>
  The balance behind "at most one live subscription": for every signal, teardowns
  included, the calls of \<^verbatim>\<open>subscribeFn\<close> for an identity exceed the calls of its handles
  by one while a handle is stored and by nothing otherwise, if that was so before.
\<close>

lemma hasSubscription_teardown [simp]:
  "hasSubscription (firestoreUnsubscribe h' st) h = (h \<noteq> h' \<and> hasSubscription st h)"
  "hasSubscription (queryCacheUnsubscribe h' st) h = hasSubscription st h"
  "hasSubscription (resolvePromise p v st) h = hasSubscription st h"
  "hasSubscription (openSubscription hk st) h = (h = subscriptionHash hk \<or> hasSubscription st h)"
  by (auto simp: hasSubscription_def)

lemma listener_balanced:
  assumes "balanced st h"
  shows "balanced (listener hk evo st) h"
proof (cases evo)
  case None
  then show ?thesis using assms by (simp add: listener_undefined)
next
  case (Some ev)
  show ?thesis
  proof (cases "queryHash ev = hashFn hk (queryKey hk)")
    case False
    then show ?thesis using Some assms by (simp add: listener_other_query)
  next
    case True
    show ?thesis
    proof (cases "ev_type ev")
      case QueryRemoved
      then have "about hk QueryRemoved ev" using True by (simp add: about_def)
      then show ?thesis using Some assms
        by (auto simp: listener_queryRemoved balanced_def)
    next
      case ObserverAdded
      then have "about hk ObserverAdded ev" using True by (simp add: about_def)
      then show ?thesis using Some assms
        by (auto simp: listener_observerAdded balanced_def)
    next
      case ObserverRemoved
      then have "about hk ObserverRemoved ev" using True by (simp add: about_def)
      then show ?thesis using Some assms
        by (auto simp: listener_observerRemoved balanced_def)
    qed (use Some assms in \<open>simp_all add: listener_no_case\<close>)
  qed
qed

lemma run_balanced: "balanced st h \<Longrightarrow> balanced (run hk sigs st) h"
proof (induction sigs arbitrary: st)
  case Nil
  then show ?case by simp
next
  case (Cons x xs)
  have "balanced (step hk x st) h"
  proof (cases x)
    case (Cache evo)
    then show ?thesis using Cons.prems by (simp add: listener_balanced)
  qed (use Cons.prems in \<open>simp_all add: balanced_def\<close>)
  then show ?case by (simp add: Cons.IH)
qed

text \<open>
  C1. Take any sequence of signals for one hook's closures in which nothing tears the
  subscription down (no \<^verbatim>\<open>queryRemoved\<close>, no \<^verbatim>\<open>observerRemoved\<close> that reads a count of
  zero): attaches, removals that leave observers, events of other queries, payloads.
  Then \<^verbatim>\<open>subscribeFn\<close> is called once if the identity had no handle and the sequence
  holds an attach, and not at all otherwise: once a handle is stored, a further attach
  opens nothing. No handle is called, the identity has a handle afterwards exactly if
  it had one or an attach came, at every point of the sequence at most one call of
  \<^verbatim>\<open>subscribeFn\<close> has been added, and the calls of \<^verbatim>\<open>subscribeFn\<close> not yet answered by
  a call of their handle stay at one with a handle stored and at none without.
\<close>

theorem attach_opens_once:
  assumes "\<forall>sig \<in> set sigs. \<not> tears_down hk sig"
  shows "opens (subscriptionHash hk) (run hk sigs st) =
           opens (subscriptionHash hk) st +
             (if \<not> hasSubscription st (subscriptionHash hk) \<and> (\<exists>sig \<in> set sigs. is_attach hk sig)
              then 1 else 0)
       \<and> closes (subscriptionHash hk) (run hk sigs st) = closes (subscriptionHash hk) st
       \<and> hasSubscription (run hk sigs st) (subscriptionHash hk) =
           (hasSubscription st (subscriptionHash hk) \<or> (\<exists>sig \<in> set sigs. is_attach hk sig))
       \<and> (\<forall>n. opens (subscriptionHash hk) (run hk (take n sigs) st)
                \<le> opens (subscriptionHash hk) st + 1)
       \<and> (balanced st (subscriptionHash hk) \<longrightarrow>
            balanced (run hk sigs st) (subscriptionHash hk))"
proof -
  have "opens (subscriptionHash hk) (run hk (take n sigs) st)
          \<le> opens (subscriptionHash hk) st + 1" for n
  proof -
    have "\<forall>sig \<in> set (take n sigs). \<not> tears_down hk sig"
      using assms by (meson in_set_takeD)
    from run_benign [OF this, of st] show ?thesis
      by (simp split: if_splits)
  qed
  then show ?thesis
    using run_benign [OF assms, of st] run_balanced [of st "subscriptionHash hk" hk sigs]
    by blast
qed

theorem attach_opens_once_witness:
  "opens ''todos'' (run ex_hook [ex_event ObserverAdded 1, ex_event ObserverAdded 2,
        Push (JStr ''a''), ex_event ObserverRemoved 1, ex_event ObserverAdded 2] ex_mounted)
     = 1
   \<and> hasSubscription (run ex_hook [ex_event ObserverAdded 1, ex_event ObserverAdded 2,
        Push (JStr ''a''), ex_event ObserverRemoved 1, ex_event ObserverAdded 2] ex_mounted) ''todos''"
proof -
  let ?sigs = "[ex_event ObserverAdded 1, ex_event ObserverAdded 2, Push (JStr ''a''),
                ex_event ObserverRemoved 1, ex_event ObserverAdded 2]"
  have b: "\<forall>sig \<in> set ?sigs. \<not> tears_down ex_hook sig"
    by (simp add: ex_event_def)
  have "opens ''todos'' ex_mounted = 0" "\<not> hasSubscription ex_mounted ''todos''"
    by (simp_all add: opens_def hasSubscription_def)
  then show ?thesis
    using attach_opens_once [OF b, of ex_mounted] by (simp add: ex_event_def)
qed

lemma js_nullish_defined: "c \<noteq> JUndefined \<Longrightarrow> js_nullish c JNull = c"
  by (cases c) simp_all

text \<open>
  An attach for the hook's query that finds a handle stored and a counter of at least
  one calls \<^verbatim>\<open>subscribeFn\<close> not at all and changes none of the tables nor the cache
  store. It calls the resolve of the promise of \<open>hk\<close>, the hook whose effect registered
  the listener, once, with what the cache store holds under the query key (\<^verbatim>\<open>null\<close>
  when it holds nothing): if that promise is still pending it is fulfilled with the
  value, a settled one keeps what it has. No other promise is reached.
\<close>

lemma late_attach_calls_resolve:
  assumes "about hk ObserverAdded ev"
    and "hasSubscription st (subscriptionHash hk)"
    and "1 \<le> eventCountOf st (subscriptionHash hk)"
  shows "(let st' = listener hk (Some ev) st;
              v = js_nullish (getQueryData st (queryKey hk)) JNull
          in opens (subscriptionHash hk) st' = opens (subscriptionHash hk) st
           \<and> firestoreUnsubscribes st' = firestoreUnsubscribes st
           \<and> queryCacheUnsubscribes st' = queryCacheUnsubscribes st
           \<and> eventCount st' = eventCount st
           \<and> cacheStore st' = cacheStore st
           \<and> trace st' = trace st @ [ResolveCalled (slot hk) v]
           \<and> slots st' = (if slots st (slot hk) = Some Pending
                          then (slots st)(slot hk \<mapsto> Fulfilled v) else slots st)
           \<and> (\<forall>c. cacheStore st (queryKey hk) = Some c \<and> c \<noteq> JUndefined \<longrightarrow> v = c))"
proof -
  have d: "hasData st (subscriptionHash hk)"
    using assms(3) by (simp add: hasData_def eventCountOf_def split: option.splits)
  have l: "listener hk (Some ev) st =
             resolvePromise (slot hk) (js_nullish (getQueryData st (queryKey hk)) JNull) st"
    using assms(1,2) d by (simp add: listener_observerAdded)
  show ?thesis
    unfolding Let_def l
    by (simp add: resolvePromise_slots getQueryData_def js_nullish_defined)
qed

lemma late_attach_calls_resolve_example:
  "about ex_hook ObserverAdded (ex_cache_event ObserverAdded 2)
   \<and> hasSubscription ex_has_data ''todos''
   \<and> eventCountOf ex_has_data ''todos'' = 2
   \<and> opens ''todos'' (listener ex_hook (Some (ex_cache_event ObserverAdded 2)) ex_has_data) = 1
   \<and> trace (listener ex_hook (Some (ex_cache_event ObserverAdded 2)) ex_has_data)
       = trace ex_has_data @ [ResolveCalled 0 (JStr ''b'')]"
proof -
  have a: "about ex_hook ObserverAdded (ex_cache_event ObserverAdded 2)"
    and h: "hasSubscription ex_has_data (subscriptionHash ex_hook)"
    and e: "1 \<le> eventCountOf ex_has_data (subscriptionHash ex_hook)"
    by (simp_all add: hasSubscription_def eventCountOf_def)
  show ?thesis
    using late_attach_calls_resolve [OF a h e]
    by (simp add: Let_def hasSubscription_def eventCountOf_def getQueryData_def opens_def)
qed

lemma ex_second_fields [simp]:
  "subscriptionHash ex_second = ''todos''"
  "hashFn ex_second = concat"
  "queryKey ex_second = [''todos'']"
  "slot ex_second = 1"
  "\<not> onlyOnce ex_second"
  "enabled ex_second"
  by (simp_all add: ex_second_def ex_hook_def subscriptionHash_def enabled_def)

lemma ex_second_rendered_fields [simp]:
  "firestoreUnsubscribes ex_second_rendered = [''todos'' \<mapsto> 1]"
  "queryCacheUnsubscribes ex_second_rendered = [''todos'' \<mapsto> 0]"
  "eventCount ex_second_rendered = [''todos'' \<mapsto> 2]"
  "cacheStore ex_second_rendered = [[''todos''] \<mapsto> JStr ''b'']"
  "slots ex_second_rendered = [0 \<mapsto> Fulfilled (JStr ''a''), 1 \<mapsto> Pending]"
  "trace ex_second_rendered = trace ex_has_data"
  by (simp_all add: ex_second_rendered_def subscribeEffect_def newPromise_def Let_def)

text \<open>
  The events of one hook's closures keep \<open>first_settles\<close>: whenever the counter of the
  identity is not 0, the promise the listener can reach is settled already.
\<close>

lemma first_settles_same:
  "eventCount st' = eventCount st \<Longrightarrow> slots st' = slots st \<Longrightarrow>
   first_settles hk st' = first_settles hk st"
  by (simp add: first_settles_def eventCountOf_def)

lemma first_settles_no_counter:
  "eventCount st (subscriptionHash hk) = None \<Longrightarrow> first_settles hk st"
  by (simp add: first_settles_def eventCountOf_def)

lemma first_settles_resolvePromise:
  "first_settles hk st \<Longrightarrow> first_settles hk (resolvePromise p v st)"
  by (auto simp: first_settles_def eventCountOf_def resolvePromise_slots)

lemma first_settles_rejectPromise:
  "first_settles hk st \<Longrightarrow> first_settles hk (rejectPromise p e st)"
  by (auto simp: first_settles_def eventCountOf_def rejectPromise_def settle_slots)

lemma first_settles_callback:
  "first_settles hk st \<Longrightarrow> first_settles hk (callback hk d st)"
  by (auto simp: first_settles_def callback_slots eventCountOf_callback)

lemma first_settles_foldl_callback:
  "first_settles hk st \<Longrightarrow> first_settles hk (foldl (\<lambda>s d. callback hk d s) st ds)"
  by (induction ds arbitrary: st) (simp_all add: first_settles_callback)

lemma first_settles_openSubscription:
  assumes "first_settles hk st"
  shows "first_settles hk (openSubscription hk st)"
proof -
  let ?st1 = "st\<lparr>nextHandle := nextHandle st + 1,
                  trace := trace st @ [Subscribed (subscriptionHash hk) (nextHandle st)]\<rparr>"
  let ?st2 = "foldl (\<lambda>s d. callback hk d s) ?st1 (subscribeFn hk)"
  have "first_settles hk ?st1"
    using assms by (simp add: first_settles_def eventCountOf_def)
  then have "first_settles hk ?st2"
    by (rule first_settles_foldl_callback)
  moreover have "first_settles hk (openSubscription hk st) = first_settles hk ?st2"
    by (rule first_settles_same) (simp_all add: openSubscription_def Let_def)
  ultimately show ?thesis by simp
qed

lemma first_settles_listener:
  assumes "first_settles hk st"
  shows "first_settles hk (listener hk evo st)"
proof (cases evo)
  case None
  then show ?thesis using assms by (simp add: listener_undefined)
next
  case (Some ev)
  show ?thesis
  proof (cases "queryHash ev = hashFn hk (queryKey hk)")
    case False
    then show ?thesis using Some assms by (simp add: listener_other_query)
  next
    case True
    show ?thesis
    proof (cases "ev_type ev")
      case QueryRemoved
      then have "about hk QueryRemoved ev" using True by (simp add: about_def)
      then show ?thesis using Some
        by (simp add: listener_queryRemoved first_settles_no_counter)
    next
      case ObserverAdded
      then have "about hk ObserverAdded ev" using True by (simp add: about_def)
      then show ?thesis using Some assms
        by (simp add: listener_observerAdded first_settles_resolvePromise
              first_settles_openSubscription)
    next
      case ObserverRemoved
      then have "about hk ObserverRemoved ev" using True by (simp add: about_def)
      then show ?thesis using Some assms
        by (simp add: listener_observerRemoved first_settles_no_counter)
    qed (use Some assms in \<open>simp_all add: listener_no_case\<close>)
  qed
qed

lemma first_settles_step:
  assumes "first_settles hk st"
  shows "first_settles hk (step hk sig st)"
proof (cases sig)
  case (Cache evo)
  then show ?thesis using assms by (simp add: first_settles_listener)
next
  case (Push d)
  then show ?thesis using assms by (simp add: first_settles_callback)
next
  case (SourceFailure e)
  then show ?thesis using assms by simp
next
  case (Cleanup fid)
  have "first_settles hk (cleanup fid st) = first_settles hk st"
    by (rule first_settles_same) (simp_all add: cleanup_def split: option.splits)
  then show ?thesis using Cleanup assms by simp
next
  case (Settled fid r)
  have f: "first_settles hk (s\<lparr>fetches := x\<rparr>)" if "first_settles hk s" for s x
    using that by (simp add: first_settles_def eventCountOf_def)
  have "first_settles hk (fetchSettled fid r st)"
    using assms
    by (simp add: fetchSettled_def Let_def f first_settles_resolvePromise
          first_settles_rejectPromise split: option.splits sum.splits)
  then show ?thesis using Settled by simp
qed

lemma first_settles_run:
  "first_settles hk st \<Longrightarrow> first_settles hk (run hk sigs st)"
  by (induction sigs arbitrary: st) (simp_all add: first_settles_step)

text \<open>
  So the resolve call of the late attach settles nothing: from any state in which the
  identity has no counter, and after any signals to the hook's closures, an attach that
  finds a handle and a counter of at least one leaves every promise as it was.
\<close>

lemma replay_settles_nothing:
  assumes "eventCountOf st0 (subscriptionHash hk) = 0"
    and "st = run hk sigs st0"
    and "about hk ObserverAdded ev"
    and "hasSubscription st (subscriptionHash hk)"
    and "1 \<le> eventCountOf st (subscriptionHash hk)"
  shows "slots (listener hk (Some ev) st) = slots st"
proof -
  have "first_settles hk st0"
    using assms(1) by (simp add: first_settles_def)
  then have "first_settles hk st"
    unfolding assms(2) by (rule first_settles_run)
  then have "slots st (slot hk) \<noteq> Some Pending"
    using assms(5) by (simp add: first_settles_def)
  then show ?thesis
    using late_attach_calls_resolve [OF assms(3,4,5)] by (simp add: Let_def)
qed

text \<open>
  C3. The first component is subscribed and has received \<open>a\<close> and \<open>b\<close>; the cache
  store holds \<open>b\<close>. A second component with the same keys renders: its promise (1) is
  pending and its registration effect returns at line 135, so the only listener is the
  first component's, whose \<^verbatim>\<open>resolvePromise\<close> belongs to promise 0. When the second
  consumer attaches, no subscription is opened, as the claim says. But the cached value
  is passed to the resolve of promise 0, which was fulfilled with \<open>a\<close> by the first
  event and keeps it; the pending promise of the consumer that attached is not
  resolved.
\<close>

theorem late_attach_leaves_new_consumer_pending:
  "subscribeEffect ex_second (newPromise 1 ex_has_data) = newPromise 1 ex_has_data
   \<and> hasSubscription ex_second_rendered ''todos''
   \<and> eventCountOf ex_second_rendered ''todos'' = 2
   \<and> getQueryData ex_second_rendered [''todos''] = JStr ''b''
   \<and> slots ex_second_rendered 1 = Some Pending
   \<and> opens ''todos'' (listener ex_hook (Some (ex_cache_event ObserverAdded 2)) ex_second_rendered)
       = opens ''todos'' ex_second_rendered
   \<and> trace (listener ex_hook (Some (ex_cache_event ObserverAdded 2)) ex_second_rendered)
       = trace ex_second_rendered @ [ResolveCalled 0 (JStr ''b'')]
   \<and> slots (listener ex_hook (Some (ex_cache_event ObserverAdded 2)) ex_second_rendered) 0
       = Some (Fulfilled (JStr ''a''))
   \<and> slots (listener ex_hook (Some (ex_cache_event ObserverAdded 2)) ex_second_rendered) 1
       = Some Pending"
proof -
  have r: "subscribeEffect ex_second (newPromise 1 ex_has_data) = newPromise 1 ex_has_data"
    by (simp add: subscribeEffect_def newPromise_def)
  have l: "listener ex_hook (Some (ex_cache_event ObserverAdded 2)) ex_second_rendered
             = resolvePromise 0 (JStr ''b'') ex_second_rendered"
    by (simp add: listener_observerAdded hasSubscription_def hasData_def getQueryData_def)
  show ?thesis
    unfolding l using r
    by (simp add: hasSubscription_def eventCountOf_def getQueryData_def resolvePromise_slots)
qed

text \<open>
  Under the source's contract a counter never outlives its handle.
\<close>

lemma eventCount_foldl_callback_other:
  "h \<noteq> subscriptionHash hk \<Longrightarrow>
   eventCount (foldl (\<lambda>s d. callback hk d s) st ds) h = eventCount st h"
  by (induction ds arbitrary: st) simp_all

lemma eventCount_openSubscription_other:
  "h \<noteq> subscriptionHash hk \<Longrightarrow> eventCount (openSubscription hk st) h = eventCount st h"
  by (simp add: openSubscription_def Let_def eventCount_foldl_callback_other)

lemma consistent_listener:
  assumes c: "consistent st"
  shows "consistent (listener hk evo st)"
proof (cases evo)
  case None
  then show ?thesis using c by (simp add: listener_undefined)
next
  case (Some ev)
  show ?thesis
  proof (cases "queryHash ev = hashFn hk (queryKey hk)")
    case False
    then show ?thesis using Some c by (simp add: listener_other_query)
  next
    case True
    show ?thesis
    proof (cases "ev_type ev")
      case QueryRemoved
      then have "about hk QueryRemoved ev" using True by (simp add: about_def)
      then show ?thesis using Some c
        by (simp add: listener_queryRemoved consistent_def)
    next
      case ObserverAdded
      then have "about hk ObserverAdded ev" using True by (simp add: about_def)
      moreover have "consistent (openSubscription hk st)"
        using c by (simp add: consistent_def eventCount_openSubscription_other)
      moreover have "consistent (resolvePromise p v st)" for p v
        using c by (simp add: consistent_def)
      ultimately show ?thesis using Some c
        by (simp add: listener_observerAdded)
    next
      case ObserverRemoved
      then have "about hk ObserverRemoved ev" using True by (simp add: about_def)
      then show ?thesis using Some c
        by (simp add: listener_observerRemoved consistent_def)
    qed (use Some c in \<open>simp_all add: listener_no_case\<close>)
  qed
qed

lemma consistent_step:
  assumes "consistent st" and "in_contract hk sig st"
  shows "consistent (step hk sig st)"
proof (cases sig)
  case (Cache evo)
  then show ?thesis using assms by (simp add: consistent_listener)
next
  case (Push d)
  then show ?thesis using assms by (auto simp: consistent_def hasSubscription_def)
next
  case (Cleanup fid)
  then show ?thesis using assms
    by (simp add: consistent_def cleanup_def split: option.splits)
next
  case (Settled fid r)
  then show ?thesis using assms
    by (simp add: consistent_def fetchSettled_def Let_def split: option.splits sum.splits)
qed (use assms in simp)

text \<open>
  C9. While counters exist only for identities with a handle (which the source's
  contract keeps true, see \<open>consistent_step\<close>), an attach for the hook's query that
  finds no handle, with a source that pushes nothing before it returns, calls
  \<^verbatim>\<open>subscribeFn\<close> once, stores the new handle, and leaves the identity without a counter:
  \<open>eventCountOf\<close> is 0 and \<open>hasData\<close> is false.
\<close>

theorem counter_zero_after_open:
  assumes "consistent st"
    and "\<not> hasSubscription st (subscriptionHash hk)"
    and "about hk ObserverAdded ev"
    and "subscribeFn hk = []"
  shows "(let h = subscriptionHash hk; st' = listener hk (Some ev) st
          in firestoreUnsubscribes st' h = Some (nextHandle st)
           \<and> trace st' = trace st @ [Subscribed h (nextHandle st)]
           \<and> eventCountOf st' h = 0
           \<and> eventCount st' h = None
           \<and> \<not> hasData st' h)"
proof -
  have n: "eventCount st (subscriptionHash hk) = None"
    using assms(1,2) by (auto simp: consistent_def hasSubscription_def)
  have l: "listener hk (Some ev) st = openSubscription hk st"
    using assms(2,3) by (simp add: listener_observerAdded)
  show ?thesis
    unfolding Let_def l openSubscription_silent [OF assms(4)]
    using n by (simp add: eventCountOf_def hasData_def)
qed

theorem counter_zero_after_open_witness:
  "consistent ex_mounted
   \<and> \<not> hasSubscription ex_mounted ''todos''
   \<and> firestoreUnsubscribes (listener ex_hook (Some (ex_cache_event ObserverAdded 1)) ex_mounted) ''todos''
       = Some 1
   \<and> eventCountOf (listener ex_hook (Some (ex_cache_event ObserverAdded 1)) ex_mounted) ''todos'' = 0"
proof -
  have c: "consistent ex_mounted"
    and h: "\<not> hasSubscription ex_mounted (subscriptionHash ex_hook)"
    and a: "about ex_hook ObserverAdded (ex_cache_event ObserverAdded 1)"
    and s: "subscribeFn ex_hook = []"
    by (simp_all add: consistent_def hasSubscription_def)
  show ?thesis
    using c h counter_zero_after_open [OF c h a s]
    by (simp add: Let_def)
qed

section \<open>Events of the source\<close>

lemma pushes_later:
  assumes "eventCountOf st (subscriptionHash hk) \<noteq> 0"
  shows "trace (run hk (map Push ds) st) = trace st @ map (CacheWrite (queryKey hk)) ds
       \<and> eventCountOf (run hk (map Push ds) st) (subscriptionHash hk)
           = eventCountOf st (subscriptionHash hk) + length ds
       \<and> slots (run hk (map Push ds) st) = slots st
       \<and> cacheStore (run hk (map Push ds) st)
           = (if ds = [] then cacheStore st else (cacheStore st)(queryKey hk \<mapsto> last ds))"
  using assms
proof (induction ds arbitrary: st)
  case Nil
  then show ?case by simp
next
  case (Cons d ds)
  let ?st1 = "callback hk d st"
  have n: "eventCountOf ?st1 (subscriptionHash hk) \<noteq> 0"
    by (simp add: eventCountOf_callback)
  have t: "trace ?st1 = trace st @ [CacheWrite (queryKey hk) d]"
    and s: "slots ?st1 = slots st"
    and c: "cacheStore ?st1 = (cacheStore st)(queryKey hk \<mapsto> d)"
    using Cons.prems by (simp_all add: callback_slots callback_cacheStore)
  have e: "eventCountOf ?st1 (subscriptionHash hk) = Suc (eventCountOf st (subscriptionHash hk))"
    by (rule eventCountOf_callback)
  have r: "run hk (map Push (d # ds)) st = run hk (map Push ds) ?st1"
    by simp
  show ?case
    unfolding r using Cons.IH [OF n] unfolding t s c e by auto
qed

text \<open>
  Every delivery adds one to the identity's counter, in any state. A delivery that
  finds the counter missing or 0 passes its payload to the promise's resolve, as it is
  when it is truthy and as \<^verbatim>\<open>null\<close> when it is falsy (\<^verbatim>\<open>data || null\<close>), and does not
  write the cache store. Any other delivery writes its payload to the cache store under
  the query key, unchanged, and resolves nothing. So of a sequence of payloads for an
  identity without a counter the first, and no other, reaches the resolve, and the
  cache store ends with the last of the later ones.
\<close>

lemma deliveries_first_then_cache:
  "eventCountOf (callback hk d st) (subscriptionHash hk) = Suc (eventCountOf st (subscriptionHash hk))
   \<and> trace (callback hk d st) = trace st @
        [if eventCountOf st (subscriptionHash hk) = 0
         then ResolveCalled (slot hk) (if truthy d then d else JNull)
         else CacheWrite (queryKey hk) d]
   \<and> cacheStore (callback hk d st) =
        (if eventCountOf st (subscriptionHash hk) = 0 then cacheStore st
         else (cacheStore st)(queryKey hk \<mapsto> d))
   \<and> (eventCountOf st (subscriptionHash hk) = 0 \<longrightarrow>
        trace (run hk (map Push (d # ds)) st)
          = trace st @ ResolveCalled (slot hk) (if truthy d then d else JNull)
                      # map (CacheWrite (queryKey hk)) ds
      \<and> eventCountOf (run hk (map Push (d # ds)) st) (subscriptionHash hk) = Suc (length ds)
      \<and> slots (run hk (map Push (d # ds)) st)
          = (if slots st (slot hk) = Some Pending
             then (slots st)(slot hk \<mapsto> Fulfilled (if truthy d then d else JNull))
             else slots st)
      \<and> cacheStore (run hk (map Push (d # ds)) st)
          = (if ds = [] then cacheStore st else (cacheStore st)(queryKey hk \<mapsto> last ds)))"
proof (intro conjI impI)
  show "eventCountOf (callback hk d st) (subscriptionHash hk) = Suc (eventCountOf st (subscriptionHash hk))"
    by (rule eventCountOf_callback)
  show "trace (callback hk d st) = trace st @
        [if eventCountOf st (subscriptionHash hk) = 0
         then ResolveCalled (slot hk) (if truthy d then d else JNull)
         else CacheWrite (queryKey hk) d]"
    by (simp add: js_or_def)
  show "cacheStore (callback hk d st) =
        (if eventCountOf st (subscriptionHash hk) = 0 then cacheStore st
         else (cacheStore st)(queryKey hk \<mapsto> d))"
    by (rule callback_cacheStore)
next
  assume z: "eventCountOf st (subscriptionHash hk) = 0"
  let ?st1 = "callback hk d st"
  have n: "eventCountOf ?st1 (subscriptionHash hk) \<noteq> 0"
    by (simp add: eventCountOf_callback)
  have one: "eventCountOf ?st1 (subscriptionHash hk) = 1"
    by (simp add: eventCountOf_callback z)
  have t: "trace ?st1 = trace st @ [ResolveCalled (slot hk) (if truthy d then d else JNull)]"
    and s: "slots ?st1 = (if slots st (slot hk) = Some Pending
              then (slots st)(slot hk \<mapsto> Fulfilled (if truthy d then d else JNull)) else slots st)"
    and c: "cacheStore ?st1 = cacheStore st"
    using z by (simp_all add: callback_slots callback_cacheStore js_or_def)
  note later = pushes_later [OF n, of ds]
  show "trace (run hk (map Push (d # ds)) st)
          = trace st @ ResolveCalled (slot hk) (if truthy d then d else JNull)
                      # map (CacheWrite (queryKey hk)) ds"
    using later t by simp
  show "eventCountOf (run hk (map Push (d # ds)) st) (subscriptionHash hk) = Suc (length ds)"
    using later one by simp
  show "slots (run hk (map Push (d # ds)) st)
          = (if slots st (slot hk) = Some Pending
             then (slots st)(slot hk \<mapsto> Fulfilled (if truthy d then d else JNull))
             else slots st)"
    using later s by simp
  show "cacheStore (run hk (map Push (d # ds)) st)
          = (if ds = [] then cacheStore st else (cacheStore st)(queryKey hk \<mapsto> last ds))"
    using later c by simp
qed

lemma deliveries_first_then_cache_example:
  "eventCountOf ex_subscribed ''todos'' = 0
   \<and> trace (run ex_hook (map Push [JStr ''a'', JStr ''b'', JNum 0]) ex_subscribed)
       = trace ex_subscribed @ [ResolveCalled 0 (JStr ''a''), CacheWrite [''todos''] (JStr ''b''),
                               CacheWrite [''todos''] (JNum 0)]
   \<and> eventCountOf (run ex_hook (map Push [JStr ''a'', JStr ''b'', JNum 0]) ex_subscribed) ''todos'' = 3
   \<and> slots (run ex_hook (map Push [JStr ''a'', JStr ''b'', JNum 0]) ex_subscribed) 0
       = Some (Fulfilled (JStr ''a''))
   \<and> cacheStore (run ex_hook (map Push [JStr ''a'', JStr ''b'', JNum 0]) ex_subscribed) [''todos'']
       = Some (JNum 0)"
proof -
  have z: "eventCountOf ex_subscribed ''todos'' = 0"
    by (simp add: eventCountOf_def)
  show ?thesis
    using z deliveries_first_then_cache
            [of ex_hook "JStr ''a''" ex_subscribed "[JStr ''b'', JNum 0]"]
    by simp
qed

lemma ex_reopened_fields [simp]:
  "firestoreUnsubscribes ex_reopened = [''todos'' \<mapsto> 2]"
  "queryCacheUnsubscribes ex_reopened = [''todos'' \<mapsto> 0]"
  "eventCount ex_reopened = Map.empty"
  "cacheStore ex_reopened = [[''todos''] \<mapsto> JStr ''b'']"
  "slots ex_reopened = [0 \<mapsto> Fulfilled (JStr ''a'')]"
  "trace ex_reopened = trace ex_has_data @ [Unsubscribed ''todos'' 1, Subscribed ''todos'' 2]"
  by (simp_all add: ex_reopened_def ex_event_def listener_observerRemoved listener_observerAdded
        hasSubscription_def openSubscription_silent numeral_2_eq_2)

text \<open>
  C2. The subscription has just been opened, the counter is missing and the promise is
  pending. The source pushes the number 0 as its first event. The counter becomes 1 and
  the resolve is called, as the claim says, but with \<^verbatim>\<open>null\<close> (line 170,
  \<^verbatim>\<open>data || null\<close>): the promise is fulfilled with \<^verbatim>\<open>null\<close>, not with the payload, and the
  payload reaches neither the promise nor the cache store.
\<close>

theorem first_event_falsy_resolves_null:
  "eventCountOf ex_subscribed ''todos'' = 0
   \<and> slots ex_subscribed 0 = Some Pending
   \<and> eventCountOf (callback ex_hook (JNum 0) ex_subscribed) ''todos'' = 1
   \<and> trace (callback ex_hook (JNum 0) ex_subscribed) = trace ex_subscribed @ [ResolveCalled 0 JNull]
   \<and> trace (callback ex_hook (JNum 0) ex_subscribed) \<noteq> trace ex_subscribed @ [ResolveCalled 0 (JNum 0)]
   \<and> slots (callback ex_hook (JNum 0) ex_subscribed) 0 = Some (Fulfilled JNull)
   \<and> slots (callback ex_hook (JNum 0) ex_subscribed) 0 \<noteq> Some (Fulfilled (JNum 0))
   \<and> cacheStore (callback ex_hook (JNum 0) ex_subscribed) = Map.empty"
  by (simp add: eventCountOf_def callback_slots callback_cacheStore js_or_def)

text \<open>
  The other paths keep a falsy payload: a later event writes 0 to the cache store
  (line 173), the late attach passes a cached 0 to the resolve (line 162,
  \<^verbatim>\<open>cachedData ?? null\<close>), and the one-shot fetch resolves with 0 (line 116).
\<close>

lemma falsy_payload_kept_later:
  "trace (callback ex_hook (JNum 0) ex_has_data)
     = trace ex_has_data @ [CacheWrite [''todos''] (JNum 0)]"
  "cacheStore (callback ex_hook (JNum 0) ex_has_data) [''todos''] = Some (JNum 0)"
  "trace (listener ex_hook (Some (ex_cache_event ObserverAdded 2))
            (callback ex_hook (JNum 0) ex_has_data))
     = trace ex_has_data @ [CacheWrite [''todos''] (JNum 0), ResolveCalled 0 (JNum 0)]"
  by (simp_all add: callback_cacheStore eventCountOf_def listener_observerAdded
        hasSubscription_def hasData_def getQueryData_def)

lemma falsy_payload_kept_oneshot:
  "trace (fetchSettled 0 (Inr (JNum 0)) ex_fetching) = [FetchCalled 7, ResolveCalled 0 (JNum 0)]"
  "slots (fetchSettled 0 (Inr (JNum 0)) ex_fetching) 0 = Some (Fulfilled (JNum 0))"
  by (simp_all add: ex_fetching_def onlyOnceEffect_def ex_once_def ex_hook_def enabled_def
        ex_init_def newPromise_def module_loaded_def fetchSettled_def Let_def
        resolvePromise_def settle_def)

text \<open>
  The counter is deleted with the handle, the promise is not renewed. The first event
  of a subscription that was closed and opened again therefore finds the counter
  missing and goes to the resolve of a promise that is settled already: the payload
  \<open>c\<close> changes neither the promise nor the cache store.
\<close>

lemma reopened_first_event_is_lost:
  "eventCountOf ex_reopened ''todos'' = 0"
  "trace (callback ex_hook (JStr ''c'') ex_reopened)
     = trace ex_reopened @ [ResolveCalled 0 (JStr ''c'')]"
  "slots (callback ex_hook (JStr ''c'') ex_reopened) 0 = Some (Fulfilled (JStr ''a''))"
  "cacheStore (callback ex_hook (JStr ''c'') ex_reopened) [''todos''] = Some (JStr ''b'')"
  by (simp_all add: eventCountOf_def callback_slots callback_cacheStore js_or_def)

section \<open>Detach and removal\<close>

text \<open>
  C4. An \<^verbatim>\<open>observerRemoved\<close> event for the hook's query tears the subscription down
  exactly when the observer count it reads is zero. With a count of zero the listener
  does what \<open>firestoreUnsubscribe\<close> does: the stored handle, if there is one, is called
  once, and the handle and the event counter of the identity are deleted. With any
  other count the state is left as it is. So an open subscription stays open if and
  only if the count is not zero.
\<close>

theorem observerRemoved_tears_down_iff_zero:
  assumes "about hk ObserverRemoved ev"
  shows "(let h = subscriptionHash hk; st' = listener hk (Some ev) st
          in st' = (if observersCount ev = 0 then firestoreUnsubscribe h st else st)
           \<and> (observersCount ev \<noteq> 0 \<longrightarrow> st' = st)
           \<and> (observersCount ev = 0 \<longrightarrow>
                firestoreUnsubscribes st' h = None \<and> eventCount st' h = None
                \<and> trace st' = trace st @
                    (case firestoreUnsubscribes st h of None \<Rightarrow> [] | Some u \<Rightarrow> [Unsubscribed h u]))
           \<and> (hasSubscription st h \<longrightarrow>
                (hasSubscription st' h \<longleftrightarrow> observersCount ev \<noteq> 0)))"
  using assms by (simp add: listener_observerRemoved Let_def hasSubscription_def)

theorem observerRemoved_tears_down_iff_zero_witness:
  "about ex_hook ObserverRemoved (ex_cache_event ObserverRemoved 0)
   \<and> hasSubscription ex_has_data ''todos''
   \<and> \<not> hasSubscription (listener ex_hook (Some (ex_cache_event ObserverRemoved 0)) ex_has_data) ''todos''
   \<and> eventCount (listener ex_hook (Some (ex_cache_event ObserverRemoved 0)) ex_has_data) ''todos'' = None
   \<and> trace (listener ex_hook (Some (ex_cache_event ObserverRemoved 0)) ex_has_data)
       = trace ex_has_data @ [Unsubscribed ''todos'' 1]"
proof -
  have a: "about ex_hook ObserverRemoved (ex_cache_event ObserverRemoved 0)"
    by simp
  show ?thesis
    using a observerRemoved_tears_down_iff_zero [OF a, of ex_has_data]
    by (simp add: Let_def hasSubscription_def)
qed

text \<open>
  C5. A \<^verbatim>\<open>queryRemoved\<close> event for the hook's query, whatever observer count it comes
  with, calls the handle of the cache listener and the handle of the subscription (each
  if it is stored) and leaves none of the three tables with an entry for the identity.
  Running the same teardown again, through the listener or through the two functions,
  changes nothing.
\<close>

theorem queryRemoved_clears_bookkeeping:
  assumes "about hk QueryRemoved ev"
  shows "(let h = subscriptionHash hk; st' = listener hk (Some ev) st
          in queryCacheUnsubscribes st' h = None
           \<and> firestoreUnsubscribes st' h = None
           \<and> eventCount st' h = None
           \<and> trace st' = trace st
                @ (case queryCacheUnsubscribes st h of None \<Rightarrow> [] | Some l \<Rightarrow> [CacheUnsubscribed h l])
                @ (case firestoreUnsubscribes st h of None \<Rightarrow> [] | Some u \<Rightarrow> [Unsubscribed h u])
           \<and> listener hk (Some ev) st' = st'
           \<and> firestoreUnsubscribe h (queryCacheUnsubscribe h st') = st')"
proof -
  let ?h = "subscriptionHash hk"
  let ?st' = "firestoreUnsubscribe ?h (queryCacheUnsubscribe ?h st)"
  have l: "\<And>s. listener hk (Some ev) s = firestoreUnsubscribe ?h (queryCacheUnsubscribe ?h s)"
    using assms by (rule listener_queryRemoved)
  have again: "firestoreUnsubscribe ?h (queryCacheUnsubscribe ?h ?st') = ?st'"
    by (simp add: queryCacheUnsubscribe_absent firestoreUnsubscribe_absent)
  show ?thesis
    unfolding Let_def l again by simp
qed

theorem queryRemoved_clears_bookkeeping_witness:
  "about ex_hook QueryRemoved (ex_cache_event QueryRemoved 2)
   \<and> queryCacheUnsubscribes (listener ex_hook (Some (ex_cache_event QueryRemoved 2)) ex_has_data) ''todos'' = None
   \<and> firestoreUnsubscribes (listener ex_hook (Some (ex_cache_event QueryRemoved 2)) ex_has_data) ''todos'' = None
   \<and> eventCount (listener ex_hook (Some (ex_cache_event QueryRemoved 2)) ex_has_data) ''todos'' = None
   \<and> trace (listener ex_hook (Some (ex_cache_event QueryRemoved 2)) ex_has_data)
       = trace ex_has_data @ [CacheUnsubscribed ''todos'' 0, Unsubscribed ''todos'' 1]"
proof -
  have a: "about ex_hook QueryRemoved (ex_cache_event QueryRemoved 2)"
    by simp
  show ?thesis
    using a queryRemoved_clears_bookkeeping [OF a, of ex_has_data]
    by (simp add: Let_def)
qed

subsection \<open>The cache listener's registration\<close>

lemma queryCacheUnsubscribes_kept:
  assumes "\<not> is_query_removed hk sig"
  shows "queryCacheUnsubscribes (step hk sig st) = queryCacheUnsubscribes st"
proof (cases sig)
  case (Cache evo)
  show ?thesis
  proof (cases evo)
    case None
    then show ?thesis using Cache by (simp add: listener_undefined)
  next
    case (Some ev)
    show ?thesis
    proof (cases "queryHash ev = hashFn hk (queryKey hk)")
      case False
      then show ?thesis using Cache Some by (simp add: listener_other_query)
    next
      case True
      show ?thesis
      proof (cases "ev_type ev")
        case QueryRemoved
        then show ?thesis using assms Cache Some True by (simp add: about_def)
      next
        case ObserverAdded
        then have "about hk ObserverAdded ev" using True by (simp add: about_def)
        then show ?thesis using Cache Some by (simp add: listener_observerAdded)
      next
        case ObserverRemoved
        then have "about hk ObserverRemoved ev" using True by (simp add: about_def)
        then show ?thesis using Cache Some by (simp add: listener_observerRemoved)
      qed (use Cache Some in \<open>simp_all add: listener_no_case\<close>)
    qed
  qed
next
  case (Cleanup fid)
  then show ?thesis by (simp add: cleanup_def split: option.splits)
next
  case (Settled fid r)
  then show ?thesis by (simp add: fetchSettled_def Let_def split: option.splits sum.splits)
qed simp_all

lemma subscribeEffect_registered:
  "queryCacheUnsubscribes st (subscriptionHash hk) \<noteq> None \<Longrightarrow> subscribeEffect hk st = st"
  by (simp add: subscribeEffect_def)

text \<open>
  C10. An \<^verbatim>\<open>observerRemoved\<close> event that reads a count of zero deletes the handle and the
  counter of the identity and nothing else: the table of cache listeners, the cache
  store and the promises are as before, and the only call it makes is that of the
  subscription's handle. No signal other than a \<^verbatim>\<open>queryRemoved\<close> for the hook's query
  changes the table of cache listeners. So if a listener was registered, it still is:
  the registration effect of any hook with the same subscription hash then registers
  nothing, and the next attach reopens the subscription through the listener that is
  there.
\<close>

theorem detach_to_zero_keeps_listener:
  assumes "about hk ObserverRemoved ev" and "observersCount ev = 0"
  shows "(let h = subscriptionHash hk; st' = listener hk (Some ev) st
          in queryCacheUnsubscribes st' = queryCacheUnsubscribes st
           \<and> firestoreUnsubscribes st' = (firestoreUnsubscribes st)(h := None)
           \<and> eventCount st' = (eventCount st)(h := None)
           \<and> cacheStore st' = cacheStore st \<and> slots st' = slots st \<and> fetches st' = fetches st
           \<and> trace st' = trace st @
                (case firestoreUnsubscribes st h of None \<Rightarrow> [] | Some u \<Rightarrow> [Unsubscribed h u])
           \<and> (\<forall>sig. \<not> is_query_removed hk sig \<longrightarrow>
                 queryCacheUnsubscribes (step hk sig st') = queryCacheUnsubscribes st')
           \<and> (queryCacheUnsubscribes st h \<noteq> None \<longrightarrow>
                 (\<forall>hk'. subscriptionHash hk' = h \<longrightarrow> subscribeEffect hk' st' = st')
               \<and> (\<forall>ev'. about hk ObserverAdded ev' \<longrightarrow>
                     listener hk (Some ev') st' = openSubscription hk st'
                   \<and> queryCacheUnsubscribes (listener hk (Some ev') st') = queryCacheUnsubscribes st)))"
proof -
  let ?h = "subscriptionHash hk"
  let ?st' = "firestoreUnsubscribe ?h st"
  have l: "listener hk (Some ev) st = ?st'"
    using assms by (simp add: listener_observerRemoved)
  have kept: "\<forall>sig. \<not> is_query_removed hk sig \<longrightarrow>
                queryCacheUnsubscribes (step hk sig ?st') = queryCacheUnsubscribes ?st'"
    by (simp add: queryCacheUnsubscribes_kept)
  have again: "subscribeEffect hk' ?st' = ?st'"
    if "queryCacheUnsubscribes st ?h \<noteq> None" "subscriptionHash hk' = ?h" for hk'
    using that by (simp add: subscribeEffect_registered)
  have reopen: "listener hk (Some ev') ?st' = openSubscription hk ?st'
                \<and> queryCacheUnsubscribes (listener hk (Some ev') ?st') = queryCacheUnsubscribes st"
    if "about hk ObserverAdded ev'" for ev'
    using that by (simp add: listener_observerAdded)
  show ?thesis
    unfolding Let_def l using kept again reopen by simp
qed

theorem detach_to_zero_keeps_listener_witness:
  "about ex_hook ObserverRemoved (ex_cache_event ObserverRemoved 0)
   \<and> queryCacheUnsubscribes (listener ex_hook (Some (ex_cache_event ObserverRemoved 0)) ex_has_data) ''todos''
       = Some 0
   \<and> firestoreUnsubscribes (listener ex_hook (Some (ex_cache_event ObserverRemoved 0)) ex_has_data) ''todos''
       = None
   \<and> trace (listener ex_hook (Some (ex_cache_event ObserverRemoved 0)) ex_has_data)
       = trace ex_has_data @ [Unsubscribed ''todos'' 1]
   \<and> subscribeEffect ex_hook (listener ex_hook (Some (ex_cache_event ObserverRemoved 0)) ex_has_data)
       = listener ex_hook (Some (ex_cache_event ObserverRemoved 0)) ex_has_data"
proof -
  have a: "about ex_hook ObserverRemoved (ex_cache_event ObserverRemoved 0)"
    and z: "observersCount (ex_cache_event ObserverRemoved 0) = 0"
    by simp_all
  show ?thesis
    using a detach_to_zero_keeps_listener [OF a z, of ex_has_data]
    by (simp add: Let_def)
qed

section \<open>The one-shot path\<close>

text \<open>
  C6. With \<^verbatim>\<open>onlyOnce\<close> set, the hook enabled and no \<^verbatim>\<open>fetchFn\<close>, the one-shot effect
  throws the configuration error at once: it calls nothing and leaves the whole state,
  the three tables among it, as it was. The registration effect of the same hook
  returns at its first test and changes nothing either.
\<close>

theorem onlyOnce_without_fetchFn_throws:
  assumes "onlyOnce hk" and "enabled hk" and "fetchFn hk = None"
  shows "onlyOnceEffect hk fid st = (Threw ''You must specify fetchFn if using onlyOnce mode.'', st)
       \<and> subscribeEffect hk st = st"
  using assms by (simp add: onlyOnceEffect_def subscribeEffect_def)

theorem onlyOnce_without_fetchFn_throws_witness:
  "onlyOnce ex_once \<and> enabled ex_once \<and> fetchFn ex_once = None
   \<and> onlyOnceEffect ex_once 0 ex_init
       = (Threw ''You must specify fetchFn if using onlyOnce mode.'', ex_init)
   \<and> subscribeEffect ex_once ex_init = ex_init"
proof -
  have a: "onlyOnce ex_once" and b: "enabled ex_once" and c: "fetchFn ex_once = None"
    by (simp_all add: ex_once_def ex_hook_def enabled_def)
  show ?thesis
    using a b c onlyOnce_without_fetchFn_throws [OF a b c, of 0 ex_init] by simp
qed

text \<open>A cancelled run stays cancelled, whatever signals follow.\<close>

lemma stale_cleanup: "stale (cleanup fid st) fid"
  by (simp add: stale_def cleanup_def split: option.splits)

lemma fetches_listener [simp]: "fetches (listener hk evo st) = fetches st"
  by (simp add: listener_def Let_def split: option.splits event_type.splits)

lemma stale_step: "stale st fid \<Longrightarrow> stale (step hk sig st) fid"
proof (cases sig)
  case (Cleanup fid')
  assume "stale st fid"
  then show ?thesis using Cleanup
    by (auto simp: stale_def cleanup_def split: option.splits)
next
  case (Settled fid' r)
  assume "stale st fid"
  then show ?thesis using Settled
    by (auto simp: stale_def fetchSettled_def Let_def split: option.splits sum.splits)
qed (simp_all add: stale_def)

lemma stale_run: "stale st fid \<Longrightarrow> stale (run hk sigs st) fid"
  by (induction sigs arbitrary: st) (simp_all add: stale_step)

lemma fetchSettled_stale:
  assumes "stale st fid"
  shows "trace (fetchSettled fid r st) = trace st"
    and "slots (fetchSettled fid r st) = slots st"
    and "cacheStore (fetchSettled fid r st) = cacheStore st"
    and "firestoreUnsubscribes (fetchSettled fid r st) = firestoreUnsubscribes st"
    and "queryCacheUnsubscribes (fetchSettled fid r st) = queryCacheUnsubscribes st"
    and "eventCount (fetchSettled fid r st) = eventCount st"
  using assms
  by (simp_all add: stale_def fetchSettled_def Let_def split: option.splits sum.splits)

text \<open>
  C7. Once the cleanup of a one-shot run has been called, the settling of that run's
  \<^verbatim>\<open>fetchFn\<close> promise, with a value or with an error and after any further signals,
  calls neither the resolve nor the reject of the promise: the trace, the promises, the
  cache store and the three tables are what they were just before it settled.
\<close>

theorem cancelled_fetch_is_suppressed:
  "(let st1 = run hk sigs (cleanup fid st); st2 = fetchSettled fid outcome st1
    in trace st2 = trace st1 \<and> slots st2 = slots st1 \<and> cacheStore st2 = cacheStore st1
     \<and> firestoreUnsubscribes st2 = firestoreUnsubscribes st1
     \<and> queryCacheUnsubscribes st2 = queryCacheUnsubscribes st1
     \<and> eventCount st2 = eventCount st1)"
proof -
  have "stale (run hk sigs (cleanup fid st)) fid"
    by (simp add: stale_run stale_cleanup)
  then show ?thesis
    unfolding Let_def by (simp add: fetchSettled_stale)
qed

lemma ex_fetching_fields [simp]:
  "fetches ex_fetching = [0 \<mapsto> \<lparr>f_slot = 0, cancelled = False, settled = False\<rparr>]"
  "slots ex_fetching = [0 \<mapsto> Pending]"
  "trace ex_fetching = [FetchCalled 7]"
  by (simp_all add: ex_fetching_def onlyOnceEffect_def ex_once_def ex_hook_def enabled_def ex_init_def
        newPromise_def module_loaded_def)

theorem cancelled_fetch_is_suppressed_witness:
  "trace (fetchSettled 0 (Inr (JStr ''x'')) (run ex_once [] (cleanup 0 ex_fetching))) = [FetchCalled 7]
   \<and> slots (fetchSettled 0 (Inr (JStr ''x'')) (run ex_once [] (cleanup 0 ex_fetching))) 0 = Some Pending"
  using cancelled_fetch_is_suppressed
          [where hk = ex_once and sigs = "[]" and fid = 0 and st = ex_fetching
             and outcome = "Inr (JStr ''x'')"]
  by (simp add: Let_def cleanup_def)

text \<open>Without the cleanup the same settling does reach the promise.\<close>

lemma uncancelled_fetch_settles:
  "trace (fetchSettled 0 (Inr (JStr ''x'')) ex_fetching) = [FetchCalled 7, ResolveCalled 0 (JStr ''x'')]"
  "slots (fetchSettled 0 (Inr (JStr ''x'')) ex_fetching) 0 = Some (Fulfilled (JStr ''x''))"
  "trace (fetchSettled 0 (Inl (JStr ''e'')) ex_fetching) = [FetchCalled 7, RejectCalled 0 (JStr ''e'')]"
  "slots (fetchSettled 0 (Inl (JStr ''e'')) ex_fetching) 0 = Some (Rejected (JStr ''e''))"
  by (simp_all add: fetchSettled_def Let_def resolvePromise_def rejectPromise_def settle_def)

section \<open>Failures of the source\<close>

lemma no_new_reject_refl [simp]: "no_new_reject st st"
  by (simp add: no_new_reject_def)

lemma no_new_reject_trans:
  "no_new_reject st st1 \<Longrightarrow> no_new_reject st1 st2 \<Longrightarrow> no_new_reject st st2"
  by (simp add: no_new_reject_def)

lemma no_new_reject_resolvePromise [simp]: "no_new_reject st (resolvePromise p v st)"
  by (simp add: no_new_reject_def resolvePromise_slots)

lemma no_new_reject_callback [simp]: "no_new_reject st (callback hk d st)"
  by (simp add: no_new_reject_def callback_slots)

lemma no_new_reject_foldl_callback [simp]:
  "no_new_reject st (foldl (\<lambda>s d. callback hk d s) st ds)"
proof (induction ds arbitrary: st)
  case Nil
  then show ?case by simp
next
  case (Cons d ds)
  show ?case
    using no_new_reject_trans [OF no_new_reject_callback Cons.IH] by simp
qed

lemma no_new_reject_openSubscription [simp]: "no_new_reject st (openSubscription hk st)"
proof -
  let ?st1 = "st\<lparr>nextHandle := nextHandle st + 1,
                  trace := trace st @ [Subscribed (subscriptionHash hk) (nextHandle st)]\<rparr>"
  let ?st2 = "foldl (\<lambda>s d. callback hk d s) ?st1 (subscribeFn hk)"
  have a: "no_new_reject st ?st1"
    by (simp add: no_new_reject_def)
  have b: "no_new_reject ?st1 ?st2"
    by (rule no_new_reject_foldl_callback)
  have c: "no_new_reject ?st2 (openSubscription hk st)"
    by (simp add: no_new_reject_def openSubscription_def Let_def)
  show ?thesis
    using a b c by (blast intro: no_new_reject_trans)
qed

lemma no_new_reject_teardown [simp]:
  "no_new_reject st (firestoreUnsubscribe h st)"
  "no_new_reject st (queryCacheUnsubscribe h st)"
  "no_new_reject st (firestoreUnsubscribe h (queryCacheUnsubscribe h st))"
  by (simp_all add: no_new_reject_def split: option.splits)

lemma no_new_reject_listener [simp]: "no_new_reject st (listener hk evo st)"
proof (cases evo)
  case None
  then show ?thesis by (simp add: listener_undefined)
next
  case (Some ev)
  show ?thesis
  proof (cases "queryHash ev = hashFn hk (queryKey hk)")
    case False
    then show ?thesis using Some by (simp add: listener_other_query)
  next
    case True
    show ?thesis
    proof (cases "ev_type ev")
      case QueryRemoved
      then have "about hk QueryRemoved ev" using True by (simp add: about_def)
      then show ?thesis using Some by (simp add: listener_queryRemoved)
    next
      case ObserverAdded
      then have "about hk ObserverAdded ev" using True by (simp add: about_def)
      then show ?thesis using Some by (simp add: listener_observerAdded)
    next
      case ObserverRemoved
      then have "about hk ObserverRemoved ev" using True by (simp add: about_def)
      then show ?thesis using Some by (simp add: listener_observerRemoved)
    qed (use Some in \<open>simp_all add: listener_no_case\<close>)
  qed
qed






end
